theory Spec2Isabelle
  imports Main "HOL-Library.Sublist" "HOL-Library.Word"
begin

section \<open>Byte strings\<close>

text \<open>
  A \<open>std::string\<close> is a sequence of bytes; it is modelled as \<^typ>\<open>string\<close>, a list of
  \<^typ>\<open>char\<close>, each of which is one byte. The UTF-8 literals of the source are written
  out byte by byte. \<open>std::string::npos\<close> is modelled as \<^term>\<open>None\<close>, a found
  position as \<^term>\<open>Some p\<close>.
\<close>

definition chr_cr :: char where "chr_cr = CHR 0x0D"
definition chr_tab :: char where "chr_tab = CHR 0x09"
definition chr_nl :: char where "chr_nl = CHR 0x0A"
definition chr_sp :: char where "chr_sp = CHR 0x20"

text \<open>The three sentence enders of \<open>find_first_sentence_end_zh\<close>, in UTF-8.\<close>

definition zh_period :: string where "zh_period = [CHR 0xE3, CHR 0x80, CHR 0x82]"
definition zh_exclam :: string where "zh_exclam = [CHR 0xEF, CHR 0xBC, CHR 0x81]"
definition zh_question :: string where "zh_question = [CHR 0xEF, CHR 0xBC, CHR 0x9F]"

text \<open>\<open>s.find(t)\<close>: the smallest offset at which \<open>t\<close> occurs in \<open>s\<close>.\<close>

fun find_str :: "string \<Rightarrow> string \<Rightarrow> nat option" where
  "find_str [] t = (if t = [] then Some 0 else None)"
| "find_str (c # cs) t =
     (if prefix t (c # cs) then Some 0 else map_option Suc (find_str cs t))"

text \<open>\<open>s.find(ch)\<close> for a single byte.\<close>

fun find_chr :: "string \<Rightarrow> char \<Rightarrow> nat option" where
  "find_chr [] ch = None"
| "find_chr (c # cs) ch = (if c = ch then Some 0 else map_option Suc (find_chr cs ch))"

text \<open>\<open>s.resize(n)\<close>: truncate, or pad with zero bytes.\<close>

definition resize :: "string \<Rightarrow> nat \<Rightarrow> string" where
  "resize s n = take n s @ replicate (n - length s) (CHR 0x00)"

text \<open>\<open>std::min(cut, pos)\<close> where \<open>cut\<close> may be \<open>npos\<close>, the largest \<open>size_t\<close>.\<close>

fun min_npos :: "nat option \<Rightarrow> nat \<Rightarrow> nat option" where
  "min_npos None pos = Some pos"
| "min_npos (Some cur) pos = Some (min cur pos)"

section \<open>Stop sequence detector\<close>

fun ends_with_any :: "string \<Rightarrow> string list \<Rightarrow> bool" where
  "ends_with_any s [] = False"
| "ends_with_any s (t # ts) =
     (if t = [] then ends_with_any s ts
      else if length s \<ge> length t \<and> take (length t) (drop (length s - length t) s) = t
        then True
      else ends_with_any s ts)"

text \<open>The loop of \<open>trim_at_stop_first_occurrence\<close>, with the running value \<open>cur\<close> of \<open>cut\<close>.\<close>

fun stop_cut :: "string \<Rightarrow> string list \<Rightarrow> nat option \<Rightarrow> nat option" where
  "stop_cut s [] cur = cur"
| "stop_cut s (t # ts) cur =
     (if t = [] then stop_cut s ts cur
      else (case find_str s t of
              None \<Rightarrow> stop_cut s ts cur
            | Some pos \<Rightarrow> stop_cut s ts (min_npos cur pos)))"

definition trim_at_stop_first_occurrence :: "string \<Rightarrow> string list \<Rightarrow> string" where
  "trim_at_stop_first_occurrence s stops =
     (case stop_cut s stops None of None \<Rightarrow> s | Some k \<Rightarrow> resize s k)"

section \<open>One-sentence post-processing\<close>

definition sentence_ends :: "string list" where
  "sentence_ends = [zh_period, zh_exclam, zh_question]"

text \<open>The loop over \<open>ends\<close> in \<open>find_first_sentence_end_zh\<close>, with the running \<open>best\<close>.\<close>

fun ends_scan :: "string \<Rightarrow> string list \<Rightarrow> nat option \<Rightarrow> nat option" where
  "ends_scan s [] best = best"
| "ends_scan s (e # es) best =
     (case find_str s e of
        None \<Rightarrow> ends_scan s es best
      | Some p \<Rightarrow>
          (let endpos = p + length e
           in ends_scan s es (case best of None \<Rightarrow> Some endpos | Some b \<Rightarrow> Some (min b endpos))))"

definition find_first_sentence_end_zh :: "string \<Rightarrow> nat option" where
  "find_first_sentence_end_zh s =
     (let best = ends_scan s sentence_ends None
      in case find_chr s chr_nl of
           None \<Rightarrow> best
         | Some nl \<Rightarrow> (case best of None \<Rightarrow> Some nl | Some b \<Rightarrow> Some (min b nl)))"

definition is_ws :: "char \<Rightarrow> bool" where
  "is_ws c = (c = chr_sp \<or> c = chr_tab \<or> c = chr_nl)"

text \<open>The replacement loop: newline and tab become a space.\<close>

definition ws_to_space :: "char \<Rightarrow> char" where
  "ws_to_space c = (if c = chr_nl \<or> c = chr_tab then chr_sp else c)"

text \<open>The copy loop that drops a space following a space; \<open>prev_space\<close> is the flag.\<close>

fun collapse_spaces :: "bool \<Rightarrow> string \<Rightarrow> string" where
  "collapse_spaces prev_space [] = []"
| "collapse_spaces prev_space (c # cs) =
     (let sp = (c = chr_sp)
      in if sp then (if \<not> prev_space then c # collapse_spaces sp cs
                     else collapse_spaces sp cs)
         else c # collapse_spaces sp cs)"

definition normalize_one_sentence :: "string \<Rightarrow> string" where
  "normalize_one_sentence s =
     (let s1 = filter (\<lambda>c. c \<noteq> chr_cr) s;
          s2 = (case find_first_sentence_end_zh s1 of None \<Rightarrow> s1 | Some k \<Rightarrow> resize s1 k);
          s3 = dropWhile is_ws s2;
          s4 = rev (dropWhile is_ws (rev s3));
          s5 = map ws_to_space s4
      in collapse_spaces False s5)"

section \<open>The generation phase of \<open>main\<close>\<close>

text \<open>The stop list that \<open>main\<close> builds.\<close>

definition main_stops :: "string list" where
  "main_stops =
     [chr_nl # ''Human:'', chr_nl # ''User:'', chr_nl # ''assistant:'', chr_nl # ''Assistant:'',
      ''<|endoftext|>'', ''</s>'', ''<|im_end|>'', ''<|eot_id|>'',
      [chr_nl, chr_nl],
      zh_period, zh_exclam, zh_question, [chr_nl]]"

definition anchor_key :: string where
  "anchor_key = ''LR(0)''"

text \<open>
  The block after the normalizer in \<open>main\<close>: when the key is found at an offset other
  than 0, the text in front of it is dropped and the rest is normalized again.
\<close>

definition anchor_repair :: "string \<Rightarrow> string" where
  "anchor_repair out2 =
     (case find_str out2 anchor_key of
        None \<Rightarrow> out2
      | Some p \<Rightarrow> if p > 0 then normalize_one_sentence (drop p out2) else out2)"

text \<open>What follows the generation loop: the trimmer, the normalizer, and the repair.\<close>

definition postprocess :: "string list \<Rightarrow> string \<Rightarrow> string" where
  "postprocess stops out0 =
     (let out1 = trim_at_stop_first_occurrence out0 stops;
          out2 = normalize_one_sentence out1
      in anchor_repair out2)"

text \<open>
  The inference library is outside the program. What it answers in iteration \<open>i\<close> of the
  generation loop is a \<open>sample\<close>: whether the sampled token is the end-of-sequence token,
  the return value of \<open>llama_token_to_piece\<close> and the content of the array \<open>buf\<close> after
  that call, and the return value of \<open>llama_decode\<close> for that token. An engine gives one
  sample per iteration.
\<close>

record sample =
  is_eos :: bool
  nb :: int
  buf :: string
  decode_rc :: int

type_synonym engine = "nat \<Rightarrow> sample"

text \<open>\<open>buf, buf + nb\<close>: the first \<open>nb\<close> bytes of \<open>buf\<close>, which \<open>out.append\<close> adds.\<close>

definition piece :: "sample \<Rightarrow> string" where
  "piece r = take (nat (nb r)) (buf r)"

text \<open>
  The loop \<open>for (int i = 0; i < n_predict; ++i)\<close>, from iteration \<open>i\<close> with the buffer
  \<open>out\<close>; the result is the buffer when the loop is left. The batch that the loop fills
  for \<open>llama_decode\<close> is the library's business and is not modelled.
\<close>

function gen_loop :: "engine \<Rightarrow> string list \<Rightarrow> int \<Rightarrow> int \<Rightarrow> string \<Rightarrow> string" where
  "gen_loop eng stops n_predict i out =
     (if i < n_predict then
        (if is_eos (eng (nat i)) then out
         else if nb (eng (nat i)) \<le> 0 then out
         else if ends_with_any (out @ piece (eng (nat i))) stops
           then trim_at_stop_first_occurrence (out @ piece (eng (nat i))) stops
         else if decode_rc (eng (nat i)) \<noteq> 0 then out @ piece (eng (nat i))
         else gen_loop eng stops n_predict (i + 1) (out @ piece (eng (nat i))))
      else out)"
  by pat_completeness auto
termination
  by (relation "measure (\<lambda>(eng, stops, n_predict, i, out). nat (n_predict - i))") auto

declare gen_loop.simps [simp del]

text \<open>
  What the program does from \<open>out.reserve\<close> on, once the arguments are parsed, the model
  is loaded and the prompt is evaluated: \<open>Exit c out\<close> is the return value \<open>c\<close> of
  \<open>main\<close> with \<open>out\<close> printed between the two marker lines; \<open>LengthError\<close> is the
  \<open>std::length_error\<close> that \<open>reserve\<close> throws for a request above \<open>max_size()\<close>, which
  nothing catches. \<open>size_t\<close> has 64 bits; \<open>max_size\<close> is the library's constant.
\<close>

datatype outcome = Exit int string | LengthError

definition reserve_request :: "int \<Rightarrow> 64 word" where
  "reserve_request n_predict = word_of_int n_predict * 6"

definition generation_phase :: "nat \<Rightarrow> engine \<Rightarrow> string list \<Rightarrow> int \<Rightarrow> outcome" where
  "generation_phase max_size eng stops n_predict =
     (if unat (reserve_request n_predict) > max_size then LengthError
      else Exit 0 (postprocess stops (gen_loop eng stops n_predict 0 [])))"

section \<open>Vocabulary of the properties\<close>

text \<open>\<open>t\<close> occurs in \<open>s\<close> at offset \<open>p\<close>.\<close>

definition occurs_at :: "string \<Rightarrow> string \<Rightarrow> nat \<Rightarrow> bool" where
  "occurs_at t s p = (p \<le> length s \<and> prefix t (drop p s))"

text \<open>
  \<open>p\<close> is the smallest offset of \<open>s\<close> at which a non-empty literal of \<open>stops\<close> occurs;
  no non-empty literal of \<open>stops\<close> occurs in \<open>s\<close> at all.
\<close>

definition earliest_stop :: "string \<Rightarrow> string list \<Rightarrow> nat \<Rightarrow> bool" where
  "earliest_stop s stops p =
     ((\<exists>t \<in> set stops. t \<noteq> [] \<and> occurs_at t s p) \<and>
      (\<forall>q < p. \<forall>t \<in> set stops. t \<noteq> [] \<longrightarrow> \<not> occurs_at t s q))"

definition no_stop_occurs :: "string \<Rightarrow> string list \<Rightarrow> bool" where
  "no_stop_occurs s stops = (\<forall>t \<in> set stops. t \<noteq> [] \<longrightarrow> (\<forall>p. \<not> occurs_at t s p))"

text \<open>
  A sentence ender that occurs in \<open>s\<close> is at the very end of \<open>s\<close>.
\<close>

definition ends_only_last :: "string \<Rightarrow> bool" where
  "ends_only_last s = (\<forall>e \<in> set sentence_ends. \<forall>a b. s = a @ e @ b \<longrightarrow> b = [])"

text \<open>
  The text of the fragments of iterations \<open>0, \<dots>, k - 1\<close>; and: each of these iterations
  ran to its end, so that the loop went on (no end of sequence, a fragment was produced,
  no stop literal ended the buffer, the decode step succeeded).
\<close>

fun fragments :: "engine \<Rightarrow> nat \<Rightarrow> string" where
  "fragments eng 0 = []"
| "fragments eng (Suc k) = fragments eng k @ piece (eng k)"

definition streaming :: "engine \<Rightarrow> string list \<Rightarrow> nat \<Rightarrow> bool" where
  "streaming eng stops k =
     (\<forall>j < k. \<not> is_eos (eng j) \<and> 0 < nb (eng j) \<and>
              \<not> ends_with_any (fragments eng (Suc j)) stops \<and> decode_rc (eng j) = 0)"

text \<open>
  The engine that differs from \<open>eng\<close> in iteration \<open>k\<close> only, where its token is the
  end-of-sequence token; and the one whose decode step of iteration \<open>k\<close> succeeds.
\<close>

definition eos_at :: "engine \<Rightarrow> nat \<Rightarrow> engine" where
  "eos_at eng k = eng(k := (eng k)\<lparr>is_eos := True\<rparr>)"

definition decode_ok_at :: "engine \<Rightarrow> nat \<Rightarrow> engine" where
  "decode_ok_at eng k = eng(k := (eng k)\<lparr>decode_rc := 0\<rparr>)"

text \<open>
  Three engines whose first fragment is \<open>" a\tb"\<close>: for the first the decode step of
  that token fails; for the second it succeeds and the next token has no text
  (\<open>llama_token_to_piece\<close> returns \<open>-1\<close>); for the third it succeeds and the next token
  is the end-of-sequence token.
\<close>

definition first_fragment :: string where
  "first_fragment = [chr_sp, CHR ''a'', chr_tab, CHR ''b'']"

definition engine_decode_fails :: engine where
  "engine_decode_fails i = \<lparr>is_eos = False, nb = 4, buf = first_fragment, decode_rc = 1\<rparr>"

definition engine_piece_fails :: engine where
  "engine_piece_fails i =
     (if i = 0 then \<lparr>is_eos = False, nb = 4, buf = first_fragment, decode_rc = 0\<rparr>
      else \<lparr>is_eos = False, nb = - 1, buf = [], decode_rc = 0\<rparr>)"

definition engine_clean_stop :: engine where
  "engine_clean_stop i =
     (if i = 0 then \<lparr>is_eos = False, nb = 4, buf = first_fragment, decode_rc = 0\<rparr>
      else \<lparr>is_eos = True, nb = 0, buf = [], decode_rc = 0\<rparr>)"

text \<open>A value of \<open>max_size()\<close> for the closed examples: \<open>2 ^ 62 - 1\<close>.\<close>

definition example_max_size :: nat where
  "example_max_size = 4611686018427387903"

text \<open>
  The bytes of the example texts: the filler and the definition that starts with the
  key, each without its full stop, and the full-width comma; then the filler sentence
  followed by the definition sentence, the definition sentence alone, and the two in one
  sentence, with the comma in place of the first full stop.
\<close>

definition zh_filler :: string where
  "zh_filler = [CHR 0xE5, CHR 0x97, CHR 0xAF, CHR 0xEF, CHR 0xBC, CHR 0x8C,
                CHR 0xE5, CHR 0xA5, CHR 0xBD, CHR 0xE7, CHR 0x9A, CHR 0x84]"

definition zh_comma :: string where
  "zh_comma = [CHR 0xEF, CHR 0xBC, CHR 0x8C]"

definition zh_definition :: string where
  "zh_definition = ''LR(0)'' @
     [CHR 0xE9, CHR 0xA1, CHR 0xB9, CHR 0xE7, CHR 0x9B, CHR 0xAE, CHR 0xE9, CHR 0x9B, CHR 0x86,
      CHR 0xEF, CHR 0xBC, CHR 0x9A, CHR 0xE4, CHR 0xB8, CHR 0x80, CHR 0xE7, CHR 0xA7, CHR 0x8D,
      CHR 0xE7, CHR 0x8A, CHR 0xB6, CHR 0xE6, CHR 0x80, CHR 0x81, CHR 0xE9, CHR 0x9B, CHR 0x86,
      CHR 0xE5, CHR 0x90, CHR 0x88]"

definition anchor_example_input :: string where
  "anchor_example_input = zh_filler @ zh_period @ zh_definition @ zh_period"

definition anchor_example_claimed :: string where
  "anchor_example_claimed = zh_definition @ zh_period"

definition anchor_same_sentence_input :: string where
  "anchor_same_sentence_input = zh_filler @ zh_comma @ zh_definition @ zh_period"

section \<open>Substring search\<close>

lemma find_str_Some:
  "find_str s t = Some p \<Longrightarrow> occurs_at t s p \<and> (\<forall>q < p. \<not> prefix t (drop q s))"
proof (induction s arbitrary: p)
  case Nil
  then show ?case by (simp add: occurs_at_def split: if_splits)
next
  case (Cons c cs)
  show ?case
  proof (cases "prefix t (c # cs)")
    case True
    with Cons.prems show ?thesis by (simp add: occurs_at_def)
  next
    case False
    with Cons.prems obtain p' where p': "find_str cs t = Some p'" "p = Suc p'"
      by auto
    from Cons.IH[OF p'(1)] have ih: "occurs_at t cs p'" "\<forall>q < p'. \<not> prefix t (drop q cs)"
      by simp_all
    have "occurs_at t (c # cs) p" using ih(1) p'(2) by (simp add: occurs_at_def)
    moreover have "\<not> prefix t (drop q (c # cs))" if "q < p" for q
    proof (cases q)
      case 0
      with False show ?thesis by simp
    next
      case (Suc q')
      with that p'(2) ih(2) show ?thesis by simp
    qed
    ultimately show ?thesis by blast
  qed
qed

lemma find_str_None: "find_str s t = None \<Longrightarrow> \<not> prefix t (drop q s)"
proof (induction s arbitrary: q)
  case Nil
  then show ?case by (simp split: if_splits)
next
  case (Cons c cs)
  then show ?case by (cases q) (auto split: if_splits)
qed

lemma occurs_at_find_str:
  assumes "occurs_at t s p"
  shows "\<exists>p'. find_str s t = Some p' \<and> p' \<le> p"
proof (cases "find_str s t")
  case None
  from find_str_None[OF None, of p] assms show ?thesis by (simp add: occurs_at_def)
next
  case (Some p')
  have "p' \<le> p"
  proof (rule ccontr)
    assume "\<not> p' \<le> p"
    then have "p < p'" by simp
    with find_str_Some[OF Some] assms show False by (simp add: occurs_at_def)
  qed
  with Some show ?thesis by simp
qed

lemma occurs_at_bound: "occurs_at t s p \<Longrightarrow> p + length t \<le> length s"
  unfolding occurs_at_def by (auto dest: prefix_length_le)

lemma stop_cut_None:
  "stop_cut s ts cur = None \<longleftrightarrow>
     cur = None \<and> (\<forall>t \<in> set ts. t \<noteq> [] \<longrightarrow> find_str s t = None)"
proof (induction ts arbitrary: cur)
  case Nil
  show ?case by simp
next
  case (Cons t ts)
  show ?case by (cases cur; cases "find_str s t"; cases "t = []") (simp_all add: Cons.IH)
qed

lemma stop_cut_Some:
  "stop_cut s ts cur = Some k \<Longrightarrow>
     (cur = Some k \<or> (\<exists>t \<in> set ts. t \<noteq> [] \<and> find_str s t = Some k)) \<and>
     (\<forall>c. cur = Some c \<longrightarrow> k \<le> c) \<and>
     (\<forall>t \<in> set ts. t \<noteq> [] \<longrightarrow> (\<forall>p. find_str s t = Some p \<longrightarrow> k \<le> p))"
proof (induction ts arbitrary: cur)
  case Nil
  then show ?case by simp
next
  case (Cons t ts)
  show ?case
  proof (cases "t = []")
    case True
    with Cons.prems have "stop_cut s ts cur = Some k" by simp
    from Cons.IH[OF this] True show ?thesis by auto
  next
    case False
    show ?thesis
    proof (cases "find_str s t")
      case None
      with False Cons.prems have "stop_cut s ts cur = Some k" by simp
      from Cons.IH[OF this] None show ?thesis by auto
    next
      case (Some pos)
      with False Cons.prems have "stop_cut s ts (min_npos cur pos) = Some k" by simp
      from Cons.IH[OF this] Some False show ?thesis
        by (cases cur) (auto simp: min_def split: if_splits)
    qed
  qed
qed

lemma resize_take: "k \<le> length s \<Longrightarrow> resize s k = take k s"
  by (simp add: resize_def)

lemma stop_cut_bound:
  assumes "stop_cut s stops None = Some k"
  shows "k \<le> length s"
proof -
  from stop_cut_Some[OF assms] obtain t where "find_str s t = Some k" by auto
  from find_str_Some[OF this] show ?thesis by (simp add: occurs_at_def)
qed

lemma stop_cut_earliest:
  assumes "stop_cut s stops None = Some k"
  shows "earliest_stop s stops k"
proof -
  from stop_cut_Some[OF assms] obtain t where
    t: "t \<in> set stops" "t \<noteq> []" "find_str s t = Some k" and
    least: "\<forall>t \<in> set stops. t \<noteq> [] \<longrightarrow> (\<forall>p. find_str s t = Some p \<longrightarrow> k \<le> p)"
    by auto
  have "occurs_at t s k" using find_str_Some[OF t(3)] by simp
  moreover have "\<not> occurs_at u s q" if "q < k" "u \<in> set stops" "u \<noteq> []" for q u
  proof
    assume "occurs_at u s q"
    from occurs_at_find_str[OF this] obtain p' where "find_str s u = Some p'" "p' \<le> q" by auto
    with least that show False by fastforce
  qed
  ultimately show ?thesis using t unfolding earliest_stop_def by blast
qed

lemma earliest_stop_unique:
  "earliest_stop s stops p \<Longrightarrow> earliest_stop s stops q \<Longrightarrow> p = q"
  unfolding earliest_stop_def by (meson linorder_neqE_nat)

lemma stop_cut_no_stop:
  "stop_cut s stops None = None \<longleftrightarrow> no_stop_occurs s stops"
proof
  assume "stop_cut s stops None = None"
  then have "\<forall>t \<in> set stops. t \<noteq> [] \<longrightarrow> find_str s t = None" by (simp add: stop_cut_None)
  then show "no_stop_occurs s stops"
    unfolding no_stop_occurs_def using occurs_at_find_str by fastforce
next
  assume a: "no_stop_occurs s stops"
  have "find_str s t = None" if "t \<in> set stops" "t \<noteq> []" for t
  proof (cases "find_str s t")
    case None then show ?thesis .
  next
    case (Some p)
    from find_str_Some[OF Some] a that show ?thesis by (auto simp: no_stop_occurs_def)
  qed
  then show "stop_cut s stops None = None" by (simp add: stop_cut_None)
qed

section \<open>The stop sequence detector and the trimmer\<close>

lemma suffix_by_compare:
  "(length t \<le> length s \<and> take (length t) (drop (length s - length t) s) = t) = suffix t s"
proof
  assume a: "length t \<le> length s \<and> take (length t) (drop (length s - length t) s) = t"
  then have "drop (length s - length t) s = t" by simp
  then have "s = take (length s - length t) s @ t"
    by (metis append_take_drop_id)
  then show "suffix t s" by (rule suffixI)
next
  assume "suffix t s"
  then obtain u where "s = u @ t" by (auto simp: suffix_def)
  then show "length t \<le> length s \<and> take (length t) (drop (length s - length t) s) = t"
    by simp
qed

text \<open>
  C5: the matcher answers true exactly when some non-empty literal of the stop list is
  equal, byte for byte, to a suffix of the accumulated text; a stop list of empty
  literals only never matches.
\<close>

theorem ends_with_any_suffix_match:
  "ends_with_any s stops = (\<exists>t \<in> set stops. t \<noteq> [] \<and> suffix t s) \<and>
   ((\<forall>t \<in> set stops. t = []) \<longrightarrow> \<not> ends_with_any s stops)"
proof -
  have "ends_with_any s stops = (\<exists>t \<in> set stops. t \<noteq> [] \<and> suffix t s)"
  proof (induction stops)
    case Nil
    show ?case by simp
  next
    case (Cons t ts)
    show ?case using Cons.IH suffix_by_compare[of t s] by auto
  qed
  then show ?thesis by blast
qed

theorem ends_with_any_suffix_match_witness:
  "\<not> ends_with_any ''abc'' [[], []] \<and>
   ends_with_any ''abc'' [[], ''x'', ''bc''] \<and>
   (\<exists>t \<in> set [[], ''x'', ''bc'']. t \<noteq> [] \<and> suffix t ''abc'')"
proof -
  have h: "\<forall>t \<in> set [[], []]. t = ([] :: string)" by simp
  have m: "ends_with_any ''abc'' [[], ''x'', ''bc'']" by simp
  from ends_with_any_suffix_match[of "''abc''" "[[], []]"] h
  have a: "\<not> ends_with_any ''abc'' [[], []]" by (elim conjE) (erule mp)
  from ends_with_any_suffix_match[of "''abc''" "[[], ''x'', ''bc'']"] m
  have b: "\<exists>t \<in> set [[], ''x'', ''bc'']. t \<noteq> [] \<and> suffix t ''abc''"
    by (elim conjE) (erule subst)
  show ?thesis by (intro conjI a m b)
qed

text \<open>
  C3: the trimmer truncates the text at the smallest offset at which a non-empty stop
  literal occurs anywhere in it, and leaves the text unchanged when none occurs; one of
  the two cases always applies. With the literals \<open>X\<close> and \<open>YZ\<close> the text
  \<open>aaXbbYZcc\<close> is trimmed to \<open>aa\<close>.
\<close>

theorem trim_earliest_offset:
  "(earliest_stop s stops p \<longrightarrow> trim_at_stop_first_occurrence s stops = take p s) \<and>
   (no_stop_occurs s stops \<longrightarrow> trim_at_stop_first_occurrence s stops = s) \<and>
   (no_stop_occurs s stops \<or> (\<exists>q. earliest_stop s stops q)) \<and>
   trim_at_stop_first_occurrence ''aaXbbYZcc'' [''X'', ''YZ''] = ''aa''"
proof (intro conjI impI)
  assume e: "earliest_stop s stops p"
  then have "\<not> no_stop_occurs s stops"
    unfolding earliest_stop_def no_stop_occurs_def by blast
  then obtain k where k: "stop_cut s stops None = Some k"
    using stop_cut_no_stop[of s stops] by (cases "stop_cut s stops None") auto
  from stop_cut_earliest[OF k] e have "k = p" by (rule earliest_stop_unique)
  with k stop_cut_bound[OF k] show "trim_at_stop_first_occurrence s stops = take p s"
    by (simp add: trim_at_stop_first_occurrence_def resize_take)
next
  assume "no_stop_occurs s stops"
  then have "stop_cut s stops None = None" by (simp add: stop_cut_no_stop)
  then show "trim_at_stop_first_occurrence s stops = s"
    by (simp add: trim_at_stop_first_occurrence_def)
next
  show "no_stop_occurs s stops \<or> (\<exists>q. earliest_stop s stops q)"
  proof (cases "stop_cut s stops None")
    case None
    then show ?thesis by (simp add: stop_cut_no_stop)
  next
    case (Some k)
    from stop_cut_earliest[OF Some] show ?thesis by blast
  qed
next
  show "trim_at_stop_first_occurrence ''aaXbbYZcc'' [''X'', ''YZ''] = ''aa''"
    by (simp add: trim_at_stop_first_occurrence_def resize_def)
qed

theorem trim_earliest_offset_witness:
  "earliest_stop ''aaXbbYZcc'' [''X'', ''YZ''] 2 \<and>
   trim_at_stop_first_occurrence ''aaXbbYZcc'' [''X'', ''YZ''] = take 2 ''aaXbbYZcc'' \<and>
   no_stop_occurs ''abc'' [''X'', []] \<and>
   trim_at_stop_first_occurrence ''abc'' [''X'', []] = ''abc''"
proof -
  have "stop_cut ''aaXbbYZcc'' [''X'', ''YZ''] None = Some 2" by simp
  then have h1: "earliest_stop ''aaXbbYZcc'' [''X'', ''YZ''] 2" by (rule stop_cut_earliest)
  have "stop_cut ''abc'' [''X'', []] None = None" by simp
  then have h2: "no_stop_occurs ''abc'' [''X'', []]" by (rule stop_cut_no_stop[THEN iffD1])
  from h1 trim_earliest_offset[of "''aaXbbYZcc''" "[''X'', ''YZ'']" 2]
  have a: "trim_at_stop_first_occurrence ''aaXbbYZcc'' [''X'', ''YZ''] = take 2 ''aaXbbYZcc''"
    by (elim conjE) (erule mp)
  from h2 trim_earliest_offset[of "''abc''" "[''X'', []]" 0]
  have b: "trim_at_stop_first_occurrence ''abc'' [''X'', []] = ''abc''"
    by (elim conjE) (erule mp)
  show ?thesis by (intro conjI h1 a h2 b)
qed

text \<open>
  C4: trimming is idempotent: trimming a trimmed text with the same stop list changes
  nothing.
\<close>

theorem trim_idempotent:
  "trim_at_stop_first_occurrence (trim_at_stop_first_occurrence s stops) stops
     = trim_at_stop_first_occurrence s stops"
proof (cases "stop_cut s stops None")
  case None
  then show ?thesis by (simp add: trim_at_stop_first_occurrence_def)
next
  case (Some k)
  have kb: "k \<le> length s" by (rule stop_cut_bound[OF Some])
  have e: "earliest_stop s stops k" by (rule stop_cut_earliest[OF Some])
  have "no_stop_occurs (take k s) stops"
    unfolding no_stop_occurs_def
  proof (intro ballI impI allI notI)
    fix t q
    assume t: "t \<in> set stops" "t \<noteq> []" and o: "occurs_at t (take k s) q"
    from occurs_at_bound[OF o] kb t(2) have q: "q < k" "q + length t \<le> k"
      by (cases t; simp)+
    from o have "prefix t (drop q (take k s))" by (simp add: occurs_at_def)
    moreover have "prefix (drop q (take k s)) (drop q s)"
      by (metis append_take_drop_id drop_append prefixI)
    ultimately have "prefix t (drop q s)" by (rule prefix_order.trans)
    with q kb have "occurs_at t s q" by (simp add: occurs_at_def)
    with e q(1) t show False unfolding earliest_stop_def by blast
  qed
  then have "stop_cut (take k s) stops None = None" by (simp add: stop_cut_no_stop)
  with Some kb show ?thesis
    by (simp add: trim_at_stop_first_occurrence_def resize_take)
qed

section \<open>The first sentence end\<close>

lemma occurs_at_append: "occurs_at t s p \<longleftrightarrow> (\<exists>a b. s = a @ t @ b \<and> length a = p)"
proof
  assume o: "occurs_at t s p"
  then obtain b where b: "drop p s = t @ b" by (auto simp: occurs_at_def prefix_def)
  have "s = take p s @ drop p s" by simp
  with b have "s = take p s @ t @ b" by simp
  moreover from o have "length (take p s) = p" by (simp add: occurs_at_def)
  ultimately show "\<exists>a b. s = a @ t @ b \<and> length a = p" by blast
next
  assume "\<exists>a b. s = a @ t @ b \<and> length a = p"
  then show "occurs_at t s p" by (auto simp: occurs_at_def)
qed

lemma find_chr_None: "find_chr s c = None \<longleftrightarrow> c \<notin> set s"
  by (induction s) auto

lemma find_chr_Some:
  "find_chr s c = Some n \<Longrightarrow> n < length s \<and> c \<notin> set (take n s)"
proof (induction s arbitrary: n)
  case Nil
  then show ?case by simp
next
  case (Cons x xs)
  then show ?case by (cases "x = c") auto
qed

lemma ends_scan_None:
  "ends_scan s es best = None \<longleftrightarrow> best = None \<and> (\<forall>e \<in> set es. find_str s e = None)"
proof (induction es arbitrary: best)
  case Nil
  show ?case by simp
next
  case (Cons e es)
  show ?case by (cases best; cases "find_str s e") (simp_all add: Cons.IH Let_def)
qed

lemma ends_scan_Some:
  "ends_scan s es best = Some k \<Longrightarrow>
     (best = Some k \<or> (\<exists>e \<in> set es. \<exists>p. find_str s e = Some p \<and> k = p + length e)) \<and>
     (\<forall>b. best = Some b \<longrightarrow> k \<le> b) \<and>
     (\<forall>e \<in> set es. \<forall>p. find_str s e = Some p \<longrightarrow> k \<le> p + length e)"
proof (induction es arbitrary: best)
  case Nil
  then show ?case by simp
next
  case (Cons e es)
  show ?case
  proof (cases "find_str s e")
    case None
    with Cons.prems have "ends_scan s es best = Some k" by simp
    from Cons.IH[OF this] None show ?thesis by auto
  next
    case (Some p)
    show ?thesis
    proof (cases best)
      case None
      with Some Cons.prems have "ends_scan s es (Some (p + length e)) = Some k"
        by (simp add: Let_def)
      from Cons.IH[OF this] Some None show ?thesis by auto
    next
      case (Some b)
      with \<open>find_str s e = Some p\<close> Cons.prems
      have "ends_scan s es (Some (min b (p + length e))) = Some k"
        by (simp add: Let_def)
      from Cons.IH[OF this] \<open>find_str s e = Some p\<close> Some show ?thesis
        by (auto simp: min_def split: if_splits)
    qed
  qed
qed

lemma first_end_None:
  assumes "find_first_sentence_end_zh s = None"
  shows "chr_nl \<notin> set s" and "\<forall>e \<in> set sentence_ends. find_str s e = None"
proof -
  from assms have a: "find_chr s chr_nl = None" "ends_scan s sentence_ends None = None"
    by (auto simp: find_first_sentence_end_zh_def Let_def split: option.splits)
  from a(1) show "chr_nl \<notin> set s" by (simp add: find_chr_None)
  from a(2) show "\<forall>e \<in> set sentence_ends. find_str s e = None" by (simp add: ends_scan_None)
qed

lemma first_end_Some:
  assumes "find_first_sentence_end_zh s = Some k"
  shows "k \<le> length s" and "chr_nl \<notin> set (take k s)"
    and "\<forall>e \<in> set sentence_ends. \<forall>p. find_str s e = Some p \<longrightarrow> k \<le> p + length e"
    and "chr_nl \<notin> set s \<Longrightarrow>
           \<exists>e \<in> set sentence_ends. \<exists>p. find_str s e = Some p \<and> k = p + length e"
proof -
  let ?best = "ends_scan s sentence_ends None"
  have bestk: "k \<le> b" if "?best = Some b" for b
    using assms that
    by (auto simp: find_first_sentence_end_zh_def Let_def split: option.splits)
  have nlk: "k \<le> n" if "find_chr s chr_nl = Some n" for n
    using assms that
    by (auto simp: find_first_sentence_end_zh_def Let_def split: option.splits)
  have src: "?best = Some k \<or> find_chr s chr_nl = Some k"
    using assms
    by (auto simp: find_first_sentence_end_zh_def Let_def min_def split: option.splits if_splits)
  have endpos: "p + length e \<le> length s" if "find_str s e = Some p" for e p
    using find_str_Some[OF that] occurs_at_bound by blast
  show "k \<le> length s"
  proof -
    from src show ?thesis
    proof
      assume "?best = Some k"
      from ends_scan_Some[OF this] obtain e p where "find_str s e = Some p" "k = p + length e"
        by auto
      with endpos show ?thesis by simp
    next
      assume "find_chr s chr_nl = Some k"
      from find_chr_Some[OF this] show ?thesis by simp
    qed
  qed
  show "chr_nl \<notin> set (take k s)"
  proof (cases "find_chr s chr_nl")
    case None
    then have "chr_nl \<notin> set s" by (simp add: find_chr_None)
    then show ?thesis by (meson in_set_takeD)
  next
    case (Some n)
    from find_chr_Some[OF Some] have "chr_nl \<notin> set (take n s)" by simp
    moreover from nlk[OF Some] have "set (take k s) \<subseteq> set (take n s)"
      by (rule set_take_subset_set_take)
    ultimately show ?thesis by blast
  qed
  show "\<forall>e \<in> set sentence_ends. \<forall>p. find_str s e = Some p \<longrightarrow> k \<le> p + length e"
  proof (intro ballI allI impI)
    fix e p
    assume e: "e \<in> set sentence_ends" "find_str s e = Some p"
    then have "?best \<noteq> None" by (auto simp: ends_scan_None)
    then obtain b where b: "?best = Some b" by auto
    from ends_scan_Some[OF b] e have "b \<le> p + length e" by blast
    with bestk[OF b] show "k \<le> p + length e" by simp
  qed
  show "\<exists>e \<in> set sentence_ends. \<exists>p. find_str s e = Some p \<and> k = p + length e"
    if "chr_nl \<notin> set s"
  proof -
    from that have "find_chr s chr_nl = None" by (simp add: find_chr_None)
    with src have "?best = Some k" by simp
    from ends_scan_Some[OF this] show ?thesis by auto
  qed
qed

text \<open>The text cut at the first sentence end.\<close>

lemma cut_sentence:
  fixes s :: string
  defines "s2 \<equiv> (case find_first_sentence_end_zh s of None \<Rightarrow> s | Some k \<Rightarrow> resize s k)"
  shows "prefix s2 s" and "chr_nl \<notin> set s2" and "ends_only_last s2"
proof -
  show "prefix s2 s"
    by (cases "find_first_sentence_end_zh s")
       (simp_all add: s2_def first_end_Some(1) resize_take take_is_prefix)
  show "chr_nl \<notin> set s2"
    by (cases "find_first_sentence_end_zh s")
       (simp_all add: s2_def first_end_Some(1,2) first_end_None(1) resize_take)
  show "ends_only_last s2"
    unfolding ends_only_last_def
  proof (intro ballI allI impI)
    fix e a b
    assume e: "e \<in> set sentence_ends" and eq: "s2 = a @ e @ b"
    show "b = []"
    proof (cases "find_first_sentence_end_zh s")
      case None
      with eq have "s = a @ e @ b" by (simp add: s2_def)
      then have "occurs_at e s (length a)" by (auto simp: occurs_at_append)
      from occurs_at_find_str[OF this] first_end_None(2)[OF None] e show ?thesis by auto
    next
      case (Some k)
      have k: "k \<le> length s" by (rule first_end_Some(1)[OF Some])
      with Some eq have t: "take k s = a @ e @ b" by (simp add: s2_def resize_take)
      then have "s = a @ e @ (b @ drop k s)" by (metis append_assoc append_take_drop_id)
      then have "occurs_at e s (length a)" by (auto simp: occurs_at_append)
      from occurs_at_find_str[OF this] obtain p where p: "find_str s e = Some p" "p \<le> length a"
        by auto
      from first_end_Some(3)[OF Some] e p have "k \<le> length a + length e" by fastforce
      moreover from t k have "k = length a + length e + length b"
        by (metis length_append length_take min.absorb2 add.assoc)
      ultimately show ?thesis by simp
    qed
  qed
qed

section \<open>Whitespace replacement and space collapsing\<close>

lemma ws_to_space_sp: "ws_to_space c = chr_sp \<longleftrightarrow> is_ws c"
  by (auto simp: ws_to_space_def is_ws_def)

lemma ws_to_space_other: "ws_to_space c = d \<Longrightarrow> d \<noteq> chr_sp \<Longrightarrow> c = d"
  by (auto simp: ws_to_space_def split: if_splits)

lemma ws_to_space_range:
  "ws_to_space c \<noteq> chr_nl" "ws_to_space c \<noteq> chr_tab" "c \<noteq> chr_cr \<Longrightarrow> ws_to_space c \<noteq> chr_cr"
  by (auto simp: ws_to_space_def chr_nl_def chr_tab_def chr_sp_def chr_cr_def)

lemma ws_to_space_id: "c \<noteq> chr_nl \<Longrightarrow> c \<noteq> chr_tab \<Longrightarrow> ws_to_space c = c"
  by (simp add: ws_to_space_def)

lemma collapse_spaces_set: "set (collapse_spaces prev s) \<subseteq> set s"
  by (induction s arbitrary: prev) (auto simp: Let_def)

lemma collapse_spaces_length: "length (collapse_spaces prev s) \<le> length s"
  by (induction s arbitrary: prev) (auto simp: Let_def le_SucI)

lemma collapse_spaces_subseq: "subseq (collapse_spaces prev s) s"
  by (induction s arbitrary: prev) (auto simp: Let_def)

lemma collapse_spaces_no_run:
  "\<not> sublist [chr_sp, chr_sp] (collapse_spaces prev s) \<and>
   (prev \<longrightarrow> \<not> prefix [chr_sp] (collapse_spaces prev s))"
proof (induction s arbitrary: prev)
  case Nil
  show ?case by simp
next
  case (Cons c cs)
  show ?case
  proof (cases "c = chr_sp")
    case True
    with Cons.IH[of True] show ?thesis
      by (cases prev) (auto simp: sublist_Cons_right)
  next
    case False
    with Cons.IH[of False] show ?thesis
      by (auto simp: sublist_Cons_right)
  qed
qed

lemma collapse_spaces_id:
  "\<not> sublist [chr_sp, chr_sp] s \<Longrightarrow> (prev \<longrightarrow> \<not> prefix [chr_sp] s) \<Longrightarrow>
   collapse_spaces prev s = s"
proof (induction s arbitrary: prev)
  case Nil
  show ?case by simp
next
  case (Cons c cs)
  from Cons.prems(1) have tl: "\<not> sublist [chr_sp, chr_sp] cs"
    and hd: "\<not> prefix [chr_sp, chr_sp] (c # cs)"
    by (simp_all add: sublist_Cons_right)
  show ?case
  proof (cases "c = chr_sp")
    case True
    with Cons.prems(2) have np: "\<not> prev" by auto
    from True hd have "\<not> prefix [chr_sp] cs" by simp
    with Cons.IH[OF tl, of True] True np show ?thesis by simp
  next
    case False
    with Cons.IH[OF tl, of False] show ?thesis by simp
  qed
qed

lemma collapse_spaces_ends:
  "s \<noteq> [] \<Longrightarrow> last s \<noteq> chr_sp \<Longrightarrow>
   collapse_spaces prev s \<noteq> [] \<and> last (collapse_spaces prev s) = last s"
proof (induction s arbitrary: prev)
  case Nil
  then show ?case by simp
next
  case (Cons c cs)
  show ?case
  proof (cases "cs = []")
    case True
    with Cons.prems show ?thesis by simp
  next
    case False
    with Cons.prems have "last cs \<noteq> chr_sp" by simp
    from Cons.IH[OF False this] False show ?thesis by (simp add: Let_def)
  qed
qed

lemma collapse_spaces_head:
  "hd s \<noteq> chr_sp \<Longrightarrow> \<not> prefix [chr_sp] (collapse_spaces prev s)"
  by (cases s) (auto simp: Let_def)

text \<open>A run of bytes other than a space at the front of the result is at the front of the input.\<close>

lemma collapse_spaces_front:
  "chr_sp \<notin> set e \<Longrightarrow> collapse_spaces False s = e @ b \<Longrightarrow>
   \<exists>b'. s = e @ b' \<and> b = collapse_spaces False b'"
proof (induction e arbitrary: s)
  case Nil
  then show ?case by simp
next
  case (Cons c e)
  from Cons.prems(1) have c: "c \<noteq> chr_sp" and e: "chr_sp \<notin> set e" by auto
  from Cons.prems(2) obtain x xs where s: "s = x # xs" by (cases s) auto
  from Cons.prems(2) s c have x: "x = c" and rest: "collapse_spaces False xs = e @ b"
    by (auto simp: Let_def split: if_splits)
  from Cons.IH[OF e rest] s x show ?case by auto
qed

lemma collapse_spaces_occurrence:
  "chr_sp \<notin> set e \<Longrightarrow> e \<noteq> [] \<Longrightarrow> collapse_spaces prev s = a @ e @ b \<Longrightarrow>
   \<exists>a' b'. s = a' @ e @ b' \<and> b = collapse_spaces False b'"
proof (induction s arbitrary: prev a)
  case Nil
  then show ?case by simp
next
  case (Cons c cs)
  note nosp = Cons.prems(1) and ne = Cons.prems(2)
  show ?case
  proof (cases "c = chr_sp")
    case True
    show ?thesis
    proof (cases prev)
      case True
      with \<open>c = chr_sp\<close> Cons.prems(3) have "collapse_spaces True cs = a @ e @ b" by simp
      from Cons.IH[OF nosp ne this] obtain a' b' where
        "cs = a' @ e @ b'" "b = collapse_spaces False b'" by blast
      then have "c # cs = (c # a') @ e @ b' \<and> b = collapse_spaces False b'" by simp
      then show ?thesis by blast
    next
      case False
      with \<open>c = chr_sp\<close> Cons.prems(3) have eq: "chr_sp # collapse_spaces True cs = a @ e @ b"
        by simp
      have "a \<noteq> []"
      proof
        assume "a = []"
        with eq ne have "hd e = chr_sp" by (cases e) auto
        with ne nosp show False by (cases e) auto
      qed
      then obtain a2 where a2: "a = chr_sp # a2" using eq by (cases a) auto
      with eq have "collapse_spaces True cs = a2 @ e @ b" by simp
      from Cons.IH[OF nosp ne this] obtain a' b' where
        "cs = a' @ e @ b'" "b = collapse_spaces False b'" by blast
      then have "c # cs = (c # a') @ e @ b' \<and> b = collapse_spaces False b'" by simp
      then show ?thesis by blast
    qed
  next
    case False
    with Cons.prems(3) have eq: "c # collapse_spaces False cs = a @ e @ b" by simp
    show ?thesis
    proof (cases a)
      case Nil
      with eq ne obtain e2 where e2: "e = c # e2" "collapse_spaces False cs = e2 @ b"
        by (cases e) auto
      from nosp e2(1) have "chr_sp \<notin> set e2" by simp
      from collapse_spaces_front[OF this e2(2)] obtain b' where
        "cs = e2 @ b'" "b = collapse_spaces False b'" by blast
      with e2(1) have "c # cs = [] @ e @ b' \<and> b = collapse_spaces False b'" by simp
      then show ?thesis by blast
    next
      case (Cons x a2)
      with eq have "collapse_spaces False cs = a2 @ e @ b" by simp
      from Cons.IH[OF nosp ne this] obtain a' b' where
        "cs = a' @ e @ b'" "b = collapse_spaces False b'" by blast
      then have "c # cs = (c # a') @ e @ b' \<and> b = collapse_spaces False b'" by simp
      then show ?thesis by blast
    qed
  qed
qed

lemma sentence_ends_no_ws:
  "e \<in> set sentence_ends \<Longrightarrow> e \<noteq> [] \<and> chr_sp \<notin> set e \<and> chr_nl \<notin> set e \<and> chr_tab \<notin> set e"
  by (auto simp: sentence_ends_def zh_period_def zh_exclam_def zh_question_def
        chr_sp_def chr_nl_def chr_tab_def)

section \<open>The sentence normalizer\<close>

text \<open>The two stripping loops: what is left lies between two runs of whitespace.\<close>

lemma strip_ws:
  fixes s2 :: string
  defines "s4 \<equiv> rev (dropWhile is_ws (rev (dropWhile is_ws s2)))"
  shows "\<exists>a b. s2 = a @ s4 @ b"
    and "s4 \<noteq> [] \<Longrightarrow> \<not> is_ws (hd s4) \<and> \<not> is_ws (last s4)"
proof -
  let ?s3 = "dropWhile is_ws s2"
  have tail: "?s3 = s4 @ rev (takeWhile is_ws (rev ?s3))"
    unfolding s4_def by (metis rev_append rev_rev_ident takeWhile_dropWhile_id)
  have "s2 = takeWhile is_ws s2 @ ?s3" by simp
  with tail have "s2 = takeWhile is_ws s2 @ s4 @ rev (takeWhile is_ws (rev ?s3))" by simp
  then show "\<exists>a b. s2 = a @ s4 @ b" by blast
  show "\<not> is_ws (hd s4) \<and> \<not> is_ws (last s4)" if ne: "s4 \<noteq> []"
  proof
    from ne tail have "hd s4 = hd ?s3" by (metis hd_append2)
    moreover from ne tail have "?s3 \<noteq> []" by (metis append_is_Nil_conv)
    ultimately show "\<not> is_ws (hd s4)" using hd_dropWhile[of is_ws s2] by simp
    from ne have "dropWhile is_ws (rev ?s3) \<noteq> []" by (simp add: s4_def)
    from hd_dropWhile[OF this] show "\<not> is_ws (last s4)" by (simp add: s4_def last_rev)
  qed
qed

lemma strip_ws_id:
  assumes "\<not> prefix [chr_sp] s" "\<not> suffix [chr_sp] s" "chr_nl \<notin> set s" "chr_tab \<notin> set s"
  shows "rev (dropWhile is_ws (rev (dropWhile is_ws s))) = s"
proof (cases "s = []")
  case True
  then show ?thesis by simp
next
  case False
  then have hd: "hd s \<in> set s" and last: "last s \<in> set s" by simp_all
  from False assms(1) have "hd s \<noteq> chr_sp" by (cases s) auto
  with hd assms(3,4) have "\<not> is_ws (hd s)" by (auto simp: is_ws_def)
  then have front: "dropWhile is_ws s = s" by (simp add: dropWhile_eq_self_iff)
  from False assms(2) have "last s \<noteq> chr_sp"
    by (metis append_butlast_last_id suffixI)
  with last assms(3,4) have "\<not> is_ws (last s)" by (auto simp: is_ws_def)
  then have "dropWhile is_ws (rev s) = rev s" by (simp add: dropWhile_eq_self_iff hd_rev)
  with front show ?thesis by simp
qed

lemma map_ws_to_space_keeps:
  "map ws_to_space xs = e \<Longrightarrow> chr_sp \<notin> set e \<Longrightarrow> xs = e"
proof (induction xs arbitrary: e)
  case Nil
  then show ?case by simp
next
  case (Cons x xs)
  then obtain d e2 where e: "e = d # e2" "ws_to_space x = d" "map ws_to_space xs = e2"
    by auto
  with Cons.prems(2) have "d \<noteq> chr_sp" "chr_sp \<notin> set e2" by auto
  with e Cons.IH[of e2] ws_to_space_other[of x d] show ?case by simp
qed

text \<open>The stages of the normalizer, named.\<close>

lemma normalize_stages:
  obtains s2 s4 a b where
    "prefix s2 (filter (\<lambda>c. c \<noteq> chr_cr) s)" "chr_nl \<notin> set s2" "ends_only_last s2"
    "s4 = rev (dropWhile is_ws (rev (dropWhile is_ws s2)))"
    "s2 = a @ s4 @ b"
    "s4 \<noteq> [] \<longrightarrow> \<not> is_ws (hd s4) \<and> \<not> is_ws (last s4)"
    "normalize_one_sentence s = collapse_spaces False (map ws_to_space s4)"
proof -
  let ?s1 = "filter (\<lambda>c. c \<noteq> chr_cr) s"
  let ?s2 = "case find_first_sentence_end_zh ?s1 of None \<Rightarrow> ?s1 | Some k \<Rightarrow> resize ?s1 k"
  let ?s4 = "rev (dropWhile is_ws (rev (dropWhile is_ws ?s2)))"
  from strip_ws(1)[of ?s2] obtain a b where ab: "?s2 = a @ ?s4 @ b" by blast
  have "normalize_one_sentence s = collapse_spaces False (map ws_to_space ?s4)"
    by (simp add: normalize_one_sentence_def Let_def)
  with ab cut_sentence[of ?s1] strip_ws(2)[of ?s2] that[of ?s2 ?s4 a b]
  show thesis by blast
qed

lemma normalize_set:
  "chr_cr \<notin> set (normalize_one_sentence s)"
  "chr_tab \<notin> set (normalize_one_sentence s)"
  "chr_nl \<notin> set (normalize_one_sentence s)"
proof -
  obtain s2 s4 a b where
    s2: "prefix s2 (filter (\<lambda>c. c \<noteq> chr_cr) s)" and
    ab: "s2 = a @ s4 @ b" and
    out: "normalize_one_sentence s = collapse_spaces False (map ws_to_space s4)"
    by (rule normalize_stages[where s = s])
  have sub: "set (normalize_one_sentence s) \<subseteq> ws_to_space ` set s4"
    using collapse_spaces_set[of False "map ws_to_space s4"] out by simp
  have "chr_tab \<notin> ws_to_space ` set s4" using ws_to_space_range(2) by (metis imageE)
  with sub show "chr_tab \<notin> set (normalize_one_sentence s)" by blast
  have "chr_nl \<notin> ws_to_space ` set s4" using ws_to_space_range(1) by (metis imageE)
  with sub show "chr_nl \<notin> set (normalize_one_sentence s)" by blast
  have "set s4 \<subseteq> set s2" using ab by auto
  also have "\<dots> \<subseteq> set (filter (\<lambda>c. c \<noteq> chr_cr) s)" using s2 by (rule set_mono_prefix)
  finally have "chr_cr \<notin> set s4" by auto
  then have "chr_cr \<notin> ws_to_space ` set s4"
    using ws_to_space_range(3) by (metis imageE)
  with sub show "chr_cr \<notin> set (normalize_one_sentence s)" by blast
qed

lemma normalize_no_run: "\<not> sublist [chr_sp, chr_sp] (normalize_one_sentence s)"
proof -
  obtain s4 where "normalize_one_sentence s = collapse_spaces False (map ws_to_space s4)"
    by (rule normalize_stages[where s = s])
  then show ?thesis by (simp add: collapse_spaces_no_run)
qed

lemma normalize_length: "length (normalize_one_sentence s) \<le> length s"
proof -
  obtain s2 s4 a b where
    s2: "prefix s2 (filter (\<lambda>c. c \<noteq> chr_cr) s)" and
    ab: "s2 = a @ s4 @ b" and
    out: "normalize_one_sentence s = collapse_spaces False (map ws_to_space s4)"
    by (rule normalize_stages[where s = s])
  have "length (normalize_one_sentence s) \<le> length (map ws_to_space s4)"
    unfolding out by (rule collapse_spaces_length)
  also have "\<dots> \<le> length s2" using ab by simp
  also have "\<dots> \<le> length (filter (\<lambda>c. c \<noteq> chr_cr) s)" using s2 by (rule prefix_length_le)
  also have "\<dots> \<le> length s" by (rule length_filter_le)
  finally show ?thesis .
qed

lemma normalize_edges:
  "\<not> prefix [chr_sp] (normalize_one_sentence s)"
  "\<not> suffix [chr_sp] (normalize_one_sentence s)"
proof -
  obtain s4 where
    edge: "s4 \<noteq> [] \<longrightarrow> \<not> is_ws (hd s4) \<and> \<not> is_ws (last s4)" and
    out: "normalize_one_sentence s = collapse_spaces False (map ws_to_space s4)"
    by (rule normalize_stages[where s = s])
  show "\<not> prefix [chr_sp] (normalize_one_sentence s)"
  proof (cases "s4 = []")
    case True
    with out show ?thesis by simp
  next
    case False
    with edge have "hd (map ws_to_space s4) \<noteq> chr_sp" by (simp add: hd_map ws_to_space_sp)
    then show ?thesis unfolding out by (rule collapse_spaces_head)
  qed
  show "\<not> suffix [chr_sp] (normalize_one_sentence s)"
  proof (cases "s4 = []")
    case True
    with out show ?thesis by simp
  next
    case False
    with edge have "last (map ws_to_space s4) \<noteq> chr_sp" by (simp add: last_map ws_to_space_sp)
    with False collapse_spaces_ends[of "map ws_to_space s4" False]
    have "normalize_one_sentence s \<noteq> []" "last (normalize_one_sentence s) \<noteq> chr_sp"
      unfolding out by simp_all
    then show ?thesis by (auto simp: suffix_def)
  qed
qed

lemma normalize_ends_only_last: "ends_only_last (normalize_one_sentence s)"
  unfolding ends_only_last_def
proof (intro ballI allI impI)
  fix e x y
  assume e: "e \<in> set sentence_ends" and eq: "normalize_one_sentence s = x @ e @ y"
  obtain s2 s4 a b where
    s2: "ends_only_last s2" and
    ab: "s2 = a @ s4 @ b" and
    out: "normalize_one_sentence s = collapse_spaces False (map ws_to_space s4)"
    by (rule normalize_stages[where s = s])
  from sentence_ends_no_ws[OF e] have ne: "e \<noteq> []" and nosp: "chr_sp \<notin> set e" by simp_all
  from eq out have "collapse_spaces False (map ws_to_space s4) = x @ e @ y" by simp
  from collapse_spaces_occurrence[OF nosp ne this] obtain x' y' where
    m: "map ws_to_space s4 = x' @ e @ y'" and y: "y = collapse_spaces False y'" by blast
  from m obtain u r where ur: "s4 = u @ r" "map ws_to_space r = e @ y'"
    by (metis map_eq_append_conv)
  from ur(2) obtain v w where vw: "r = v @ w" "map ws_to_space v = e" "map ws_to_space w = y'"
    by (metis map_eq_append_conv)
  from ur(1) vw have uvw: "s4 = u @ v @ w" "map ws_to_space v = e" "map ws_to_space w = y'"
    by simp_all
  from map_ws_to_space_keeps[OF uvw(2) nosp] have "v = e" .
  with uvw(1) ab have "s2 = (a @ u) @ e @ (w @ b)" by simp
  with s2 e have "w @ b = []" unfolding ends_only_last_def by blast
  with uvw(3) y show "y = []" by simp
qed

text \<open>A text that already has the shape of a result is left as it is.\<close>

lemma normalize_fixpoint:
  assumes "chr_cr \<notin> set s" "chr_nl \<notin> set s" "chr_tab \<notin> set s"
    and "\<not> prefix [chr_sp] s" "\<not> suffix [chr_sp] s" "\<not> sublist [chr_sp, chr_sp] s"
    and "ends_only_last s"
  shows "normalize_one_sentence s = s"
proof -
  from assms(1) have s1: "filter (\<lambda>c. c \<noteq> chr_cr) s = s" by (auto simp: filter_id_conv)
  have s2: "(case find_first_sentence_end_zh s of None \<Rightarrow> s | Some k \<Rightarrow> resize s k) = s"
  proof (cases "find_first_sentence_end_zh s")
    case None
    then show ?thesis by simp
  next
    case (Some k)
    from first_end_Some(4)[OF Some assms(2)] obtain e p where
      e: "e \<in> set sentence_ends" "find_str s e = Some p" "k = p + length e" by blast
    from find_str_Some[OF e(2)] have "occurs_at e s p" by simp
    then obtain a b where ab: "s = a @ e @ b" "length a = p" by (auto simp: occurs_at_append)
    with assms(7) e(1) have "b = []" unfolding ends_only_last_def by blast
    with ab e(3) have "k = length s" by simp
    with Some show ?thesis by (simp add: resize_def)
  qed
  have s4: "rev (dropWhile is_ws (rev (dropWhile is_ws s))) = s"
    using assms(4,5,2,3) by (rule strip_ws_id)
  have s5: "map ws_to_space s = s"
    using assms(2,3) by (intro map_idI ws_to_space_id) auto
  have s6: "collapse_spaces False s = s"
    using assms(6) by (simp add: collapse_spaces_id)
  show ?thesis
    by (simp add: normalize_one_sentence_def Let_def s1 s2 s4 s5 s6)
qed

text \<open>
  C6: the result of the normalizer contains no carriage return, no tab, no newline (in
  its interior or elsewhere), and no two consecutive spaces.
\<close>

theorem normalize_no_forbidden:
  "chr_cr \<notin> set (normalize_one_sentence s) \<and>
   chr_tab \<notin> set (normalize_one_sentence s) \<and>
   chr_nl \<notin> set (normalize_one_sentence s) \<and>
   \<not> sublist [chr_sp, chr_sp] (normalize_one_sentence s)"
  by (intro conjI normalize_set normalize_no_run)

text \<open>
  C7: the result of the normalizer is never longer than its input.
\<close>

theorem normalize_non_expanding: "length (normalize_one_sentence s) \<le> length s"
  by (rule normalize_length)

text \<open>
  C10: the normalizer is idempotent: normalizing a normalized text changes nothing.
\<close>

theorem normalize_idempotent:
  "normalize_one_sentence (normalize_one_sentence s) = normalize_one_sentence s"
  by (intro normalize_fixpoint normalize_set normalize_edges normalize_no_run
        normalize_ends_only_last)

section \<open>The post-processing after the loop\<close>

lemma trim_prefix: "prefix (trim_at_stop_first_occurrence s stops) s"
proof (cases "stop_cut s stops None")
  case None
  then show ?thesis by (simp add: trim_at_stop_first_occurrence_def)
next
  case (Some k)
  with stop_cut_bound[OF Some] show ?thesis
    by (simp add: trim_at_stop_first_occurrence_def resize_take take_is_prefix)
qed

lemma ws_to_space_idem: "ws_to_space (ws_to_space c) = ws_to_space c"
  by (simp add: ws_to_space_def chr_sp_def chr_nl_def chr_tab_def)

lemma normalize_subseq: "subseq (normalize_one_sentence s) (map ws_to_space s)"
proof -
  obtain s2 s4 a b where
    s2: "prefix s2 (filter (\<lambda>c. c \<noteq> chr_cr) s)" and
    ab: "s2 = a @ s4 @ b" and
    out: "normalize_one_sentence s = collapse_spaces False (map ws_to_space s4)"
    by (rule normalize_stages[where s = s])
  have "sublist s4 s2" using ab by (auto simp: sublist_def)
  then have "subseq s4 s2" by (rule sublist_imp_subseq)
  moreover have "subseq s2 (filter (\<lambda>c. c \<noteq> chr_cr) s)" using s2 by (rule prefix_imp_subseq)
  moreover have "subseq (filter (\<lambda>c. c \<noteq> chr_cr) s) s" by (rule subseq_filter_left)
  ultimately have "subseq s4 s" by (meson subseq_order.trans)
  then have "subseq (map ws_to_space s4) (map ws_to_space s)" by (rule subseq_map)
  moreover have "subseq (normalize_one_sentence s) (map ws_to_space s4)"
    unfolding out by (rule collapse_spaces_subseq)
  ultimately show ?thesis by (meson subseq_order.trans)
qed

lemma normalize_map_id: "map ws_to_space (normalize_one_sentence s) = normalize_one_sentence s"
  using normalize_set(2,3)[of s] by (intro map_idI ws_to_space_id) auto

lemma postprocess_cases:
  "postprocess stops b = normalize_one_sentence (trim_at_stop_first_occurrence b stops) \<or>
   (\<exists>p. postprocess stops b =
      normalize_one_sentence
        (drop p (normalize_one_sentence (trim_at_stop_first_occurrence b stops))))"
  by (auto simp: postprocess_def anchor_repair_def Let_def split: option.splits)

lemma postprocess_subseq: "subseq (postprocess stops b) (map ws_to_space b)"
proof -
  let ?out1 = "trim_at_stop_first_occurrence b stops"
  let ?out2 = "normalize_one_sentence ?out1"
  have "subseq ?out1 b" using trim_prefix by (rule prefix_imp_subseq)
  then have "subseq (map ws_to_space ?out1) (map ws_to_space b)" by (rule subseq_map)
  with normalize_subseq[of ?out1] have o2: "subseq ?out2 (map ws_to_space b)"
    by (meson subseq_order.trans)
  have o3: "subseq (normalize_one_sentence (drop p ?out2)) (map ws_to_space b)" for p
  proof -
    have "subseq (drop p ?out2) ?out2" using suffix_drop by (rule suffix_imp_subseq)
    then have "subseq (map ws_to_space (drop p ?out2)) (map ws_to_space ?out2)"
      by (rule subseq_map)
    then have "subseq (map ws_to_space (drop p ?out2)) ?out2"
      by (simp only: normalize_map_id)
    with normalize_subseq[of "drop p ?out2"] o2 show ?thesis
      by (meson subseq_order.trans)
  qed
  from postprocess_cases[of stops b] o2 o3 show ?thesis by auto
qed

lemma prefix_occurs_at: "prefix x y \<Longrightarrow> occurs_at t x p \<Longrightarrow> occurs_at t y p"
proof -
  assume "prefix x y" and o: "occurs_at t x p"
  then obtain r where r: "y = x @ r" by (auto simp: prefix_def)
  from o obtain a b where "x = a @ t @ b" "length a = p" by (auto simp: occurs_at_append)
  with r have "y = a @ t @ (b @ r) \<and> length a = p" by simp
  then show "occurs_at t y p" unfolding occurs_at_append by blast
qed

lemma prefix_sublist: "prefix x y \<Longrightarrow> sublist t x \<Longrightarrow> sublist t y"
proof -
  assume "prefix x y" and "sublist t x"
  then obtain r ps ss where "y = x @ r" "x = ps @ t @ ss" by (auto simp: prefix_def sublist_def)
  then have "y = ps @ t @ (ss @ r)" by simp
  then show "sublist t y" unfolding sublist_def by blast
qed

text \<open>A text with nothing to clean: the normalizer only cuts it.\<close>

lemma normalize_prefix:
  assumes "chr_cr \<notin> set s" "chr_tab \<notin> set s" "\<not> prefix [chr_sp] s"
    and "\<not> sublist [chr_sp, chr_sp] s"
  shows "prefix (normalize_one_sentence s) s"
proof -
  from assms(1) have s1: "filter (\<lambda>c. c \<noteq> chr_cr) s = s" by (auto simp: filter_id_conv)
  obtain s2 s4 where
    s2: "prefix s2 (filter (\<lambda>c. c \<noteq> chr_cr) s)" and nl: "chr_nl \<notin> set s2" and
    s4: "s4 = rev (dropWhile is_ws (rev (dropWhile is_ws s2)))" and
    out: "normalize_one_sentence s = collapse_spaces False (map ws_to_space s4)"
    by (rule normalize_stages[where s = s])
  from s2 s1 have p2: "prefix s2 s" by simp
  have tab: "chr_tab \<notin> set s2" using p2 assms(2) set_mono_prefix by blast
  have front: "dropWhile is_ws s2 = s2"
  proof (cases "s2 = []")
    case True
    then show ?thesis by simp
  next
    case False
    then have "hd s2 \<in> set s2" by simp
    moreover have "hd s2 \<noteq> chr_sp"
    proof
      assume "hd s2 = chr_sp"
      with False have "prefix [chr_sp] s2" by (cases s2) auto
      with p2 assms(3) show False by (meson prefix_order.trans)
    qed
    ultimately have "\<not> is_ws (hd s2)" using nl tab by (auto simp: is_ws_def)
    then show ?thesis by (simp add: dropWhile_eq_self_iff)
  qed
  have "s2 = s4 @ rev (takeWhile is_ws (rev s2))"
    unfolding s4 front by (metis rev_append rev_rev_ident takeWhile_dropWhile_id)
  then have p4: "prefix s4 s2" by (metis prefixI)
  from p4 p2 have p: "prefix s4 s" by (rule prefix_order.trans)
  have "set s4 \<subseteq> set s2" using p4 by (rule set_mono_prefix)
  with nl tab have "map ws_to_space s4 = s4"
    by (intro map_idI ws_to_space_id) auto
  moreover have "\<not> sublist [chr_sp, chr_sp] s4"
    using p assms(4) prefix_sublist by blast
  ultimately have "normalize_one_sentence s = s4"
    unfolding out by (simp add: collapse_spaces_id)
  with p show ?thesis by simp
qed

lemma postprocess_prefix:
  assumes "chr_cr \<notin> set b" "chr_tab \<notin> set b" "\<not> prefix [chr_sp] b"
    and "\<not> sublist [chr_sp, chr_sp] b"
    and "\<forall>p. 0 < p \<longrightarrow> \<not> occurs_at anchor_key b p"
  shows "prefix (postprocess stops b) b"
proof -
  let ?out1 = "trim_at_stop_first_occurrence b stops"
  let ?out2 = "normalize_one_sentence ?out1"
  have p1: "prefix ?out1 b" by (rule trim_prefix)
  have "prefix ?out2 ?out1"
  proof (rule normalize_prefix)
    show "chr_cr \<notin> set ?out1" using p1 assms(1) set_mono_prefix by blast
    show "chr_tab \<notin> set ?out1" using p1 assms(2) set_mono_prefix by blast
    show "\<not> prefix [chr_sp] ?out1" using p1 assms(3) by (meson prefix_order.trans)
    show "\<not> sublist [chr_sp, chr_sp] ?out1" using p1 assms(4) prefix_sublist by blast
  qed
  with p1 have p2: "prefix ?out2 b" by (meson prefix_order.trans)
  have "postprocess stops b = ?out2"
  proof (cases "find_str ?out2 anchor_key")
    case None
    then show ?thesis by (simp add: postprocess_def anchor_repair_def Let_def)
  next
    case (Some p)
    from find_str_Some[OF Some] have "occurs_at anchor_key ?out2 p" by simp
    with p2 have "occurs_at anchor_key b p" by (rule prefix_occurs_at)
    with assms(5) have "p = 0" by auto
    with Some show ?thesis by (simp add: postprocess_def anchor_repair_def Let_def)
  qed
  with p2 show ?thesis by simp
qed

section \<open>The generation loop\<close>

lemma fragments_cong:
  "(\<And>j. j < k \<Longrightarrow> piece (eng j) = piece (eng' j)) \<Longrightarrow> fragments eng k = fragments eng' k"
  by (induction k) simp_all

lemma streaming_Suc:
  "streaming eng stops (Suc k) \<longleftrightarrow>
     streaming eng stops k \<and> \<not> is_eos (eng k) \<and> 0 < nb (eng k) \<and>
     \<not> ends_with_any (fragments eng (Suc k)) stops \<and> decode_rc (eng k) = 0"
  unfolding streaming_def by (auto simp: less_Suc_eq)

lemma streaming_cong:
  assumes "\<And>j. j < k \<Longrightarrow> eng j = eng' j"
  shows "streaming eng stops k = streaming eng' stops k"
proof -
  have "fragments eng (Suc j) = fragments eng' (Suc j)" if "j < k" for j
    using that assms by (intro fragments_cong) simp
  with assms show ?thesis unfolding streaming_def by auto
qed

text \<open>While the iterations run to their end, the buffer is the text of the fragments.\<close>

lemma gen_loop_streaming:
  "streaming eng stops k \<Longrightarrow> int k \<le> n_predict \<Longrightarrow>
   gen_loop eng stops n_predict 0 [] = gen_loop eng stops n_predict (int k) (fragments eng k)"
proof (induction k)
  case 0
  show ?case by simp
next
  case (Suc k)
  from Suc.prems(1) have st: "streaming eng stops k" and
    step: "\<not> is_eos (eng k)" "0 < nb (eng k)"
      "\<not> ends_with_any (fragments eng k @ piece (eng k)) stops" "decode_rc (eng k) = 0"
    by (simp_all add: streaming_Suc)
  from Suc.prems(2) have lt: "int k < n_predict" by simp
  then have "gen_loop eng stops n_predict 0 [] =
             gen_loop eng stops n_predict (int k) (fragments eng k)"
    using Suc.IH[OF st] by simp
  also have "\<dots> = gen_loop eng stops n_predict (int k + 1) (fragments eng k @ piece (eng k))"
    using lt step by (subst gen_loop.simps) simp
  finally show ?case by (simp add: add.commute)
qed

lemma gen_loop_budget:
  "n_predict \<le> i \<Longrightarrow> gen_loop eng stops n_predict i out = out"
  by (subst gen_loop.simps) simp

lemma gen_loop_eos:
  "i < n_predict \<Longrightarrow> is_eos (eng (nat i)) \<Longrightarrow> gen_loop eng stops n_predict i out = out"
  by (subst gen_loop.simps) simp

lemma gen_loop_no_piece:
  "i < n_predict \<Longrightarrow> nb (eng (nat i)) \<le> 0 \<Longrightarrow> gen_loop eng stops n_predict i out = out"
  by (subst gen_loop.simps) simp

lemma gen_loop_decode_fails:
  "i < n_predict \<Longrightarrow> \<not> is_eos (eng (nat i)) \<Longrightarrow> 0 < nb (eng (nat i)) \<Longrightarrow>
   \<not> ends_with_any (out @ piece (eng (nat i))) stops \<Longrightarrow> decode_rc (eng (nat i)) \<noteq> 0 \<Longrightarrow>
   gen_loop eng stops n_predict i out = out @ piece (eng (nat i))"
  by (subst gen_loop.simps) simp

lemma postprocess_Nil: "postprocess stops [] = []"
proof -
  have "stop_cut [] stops None = None" by (simp add: stop_cut_None)
  then have "trim_at_stop_first_occurrence [] stops = []"
    by (simp add: trim_at_stop_first_occurrence_def)
  moreover have "normalize_one_sentence [] = []"
    by (simp add: normalize_one_sentence_def find_first_sentence_end_zh_def sentence_ends_def
          zh_period_def zh_exclam_def zh_question_def)
  ultimately show ?thesis by (simp add: postprocess_def anchor_repair_def anchor_key_def)
qed

text \<open>The buffer when the engine fails in iteration \<open>k\<close>, and when it stops there cleanly.\<close>

lemma gen_loop_failure:
  assumes "streaming eng stops k" "int k < n_predict" "\<not> is_eos (eng k)"
    and "nb (eng k) \<le> 0 \<or>
         (\<not> ends_with_any (fragments eng (Suc k)) stops \<and> decode_rc (eng k) \<noteq> 0)"
  shows "gen_loop eng stops n_predict 0 [] =
         (if nb (eng k) \<le> 0 then fragments eng k else fragments eng (Suc k))"
proof -
  from assms(1,2) have start: "gen_loop eng stops n_predict 0 [] =
      gen_loop eng stops n_predict (int k) (fragments eng k)"
    by (simp add: gen_loop_streaming)
  show ?thesis
  proof (cases "nb (eng k) \<le> 0")
    case True
    with assms(2) start show ?thesis by (simp add: gen_loop_no_piece)
  next
    case False
    with assms(4) have "\<not> ends_with_any (fragments eng k @ piece (eng k)) stops"
      "decode_rc (eng k) \<noteq> 0" by simp_all
    with False assms(2,3) start show ?thesis by (simp add: gen_loop_decode_fails)
  qed
qed

lemma gen_loop_clean_stop:
  assumes "streaming eng stops k" "int k \<le> n_predict" "int k < n_predict \<longrightarrow> is_eos (eng k)"
  shows "gen_loop eng stops n_predict 0 [] = fragments eng k"
proof -
  from assms(1,2) have start: "gen_loop eng stops n_predict 0 [] =
      gen_loop eng stops n_predict (int k) (fragments eng k)"
    by (simp add: gen_loop_streaming)
  show ?thesis
  proof (cases "int k < n_predict")
    case True
    with assms(3) start show ?thesis by (simp add: gen_loop_eos)
  next
    case False
    with start show ?thesis by (simp add: gen_loop_budget)
  qed
qed

lemma failure_as_clean_stop:
  assumes "streaming eng stops k" "int k < n_predict" "\<not> is_eos (eng k)"
    and "nb (eng k) \<le> 0 \<or>
         (\<not> ends_with_any (fragments eng (Suc k)) stops \<and> decode_rc (eng k) \<noteq> 0)"
  shows "gen_loop (if nb (eng k) \<le> 0 then eos_at eng k
                   else eos_at (decode_ok_at eng k) (Suc k)) stops n_predict 0 [] =
         gen_loop eng stops n_predict 0 []"
proof (cases "nb (eng k) \<le> 0")
  case True
  let ?e = "eos_at eng k"
  have same: "\<And>j. j < k \<Longrightarrow> ?e j = eng j" by (simp add: eos_at_def)
  then have "streaming ?e stops k" using assms(1) streaming_cong[of k ?e eng stops] by simp
  moreover have "is_eos (?e k)" by (simp add: eos_at_def)
  ultimately have "gen_loop ?e stops n_predict 0 [] = fragments ?e k"
    using assms(2) by (intro gen_loop_clean_stop) simp_all
  also have "\<dots> = fragments eng k" using same by (intro fragments_cong) simp
  also have "\<dots> = gen_loop eng stops n_predict 0 []"
    using gen_loop_failure[OF assms] True by simp
  finally show ?thesis using True by simp
next
  case False
  let ?e = "eos_at (decode_ok_at eng k) (Suc k)"
  have same: "\<And>j. j < k \<Longrightarrow> ?e j = eng j" by (simp add: eos_at_def decode_ok_at_def)
  have atk: "?e k = (eng k)\<lparr>decode_rc := 0\<rparr>" by (simp add: eos_at_def decode_ok_at_def)
  have pieces: "\<And>j. j < Suc k \<Longrightarrow> piece (?e j) = piece (eng j)"
    using same atk by (auto simp: less_Suc_eq piece_def)
  have fr: "fragments ?e (Suc k) = fragments eng (Suc k)"
    using pieces by (rule fragments_cong)
  have "streaming ?e stops k" using assms(1) same streaming_cong[of k ?e eng stops] by simp
  with False assms(3,4) atk fr have "streaming ?e stops (Suc k)"
    by (simp add: streaming_Suc del: fragments.simps)
  moreover have "is_eos (?e (Suc k))" by (simp add: eos_at_def)
  ultimately have "gen_loop ?e stops n_predict 0 [] = fragments ?e (Suc k)"
    using assms(2) by (intro gen_loop_clean_stop) simp_all
  also have "\<dots> = gen_loop eng stops n_predict 0 []"
    using gen_loop_failure[OF assms] False fr by simp
  finally show ?thesis using False by simp
qed

section \<open>Outcomes of a request\<close>

lemmas example_defs =
  anchor_example_input_def anchor_example_claimed_def anchor_same_sentence_input_def
  zh_filler_def zh_comma_def zh_definition_def zh_period_def zh_exclam_def zh_question_def
  chr_nl_def chr_sp_def chr_tab_def chr_cr_def first_fragment_def

lemmas postprocess_defs =
  postprocess_def anchor_repair_def normalize_one_sentence_def trim_at_stop_first_occurrence_def
  find_first_sentence_end_zh_def sentence_ends_def anchor_key_def resize_def is_ws_def
  ws_to_space_def Let_def main_stops_def

lemma reserve_64: "unat (reserve_request 64) \<le> example_max_size"
  by (simp add: reserve_request_def example_max_size_def)

lemma reserve_0: "unat (reserve_request 0) \<le> max_size"
  by (simp add: reserve_request_def)

lemma postprocess_first_fragment: "postprocess main_stops first_fragment = ''a b''"
  by (simp add: example_defs postprocess_defs)

lemma first_fragment_no_stop: "\<not> ends_with_any first_fragment main_stops"
  by (simp add: example_defs main_stops_def)

lemma no_later_occurrence:
  assumes "find_str (tl s) t = None" "0 < p"
  shows "\<not> occurs_at t s p"
proof
  assume o: "occurs_at t s p"
  from assms(2) obtain q where q: "p = Suc q" by (cases p) auto
  with o have "occurs_at t (tl s) q" by (cases s) (auto simp: occurs_at_def)
  from occurs_at_find_str[OF this] assms(1) show False by simp
qed

text \<open>
  C1 (as the code has it): when the engine fails in iteration \<open>k\<close>, because no text comes
  for the token or because the decode step fails, the loop is left at once with the
  fragments so far; the trimmer, the normalizer and the repair then run on this buffer and
  \<open>main\<close> returns 0 with the result, which is also the outcome of the request whose
  engine stops cleanly at that point with the end-of-sequence token.
\<close>

theorem decode_failure_outcome:
  assumes "streaming eng stops k" and "int k < n_predict" and "\<not> is_eos (eng k)"
    and "nb (eng k) \<le> 0 \<or>
         (\<not> ends_with_any (fragments eng (Suc k)) stops \<and> decode_rc (eng k) \<noteq> 0)"
    and "unat (reserve_request n_predict) \<le> max_size"
  shows "generation_phase max_size eng stops n_predict =
           Exit 0 (postprocess stops
             (if nb (eng k) \<le> 0 then fragments eng k else fragments eng (Suc k))) \<and>
         generation_phase max_size
           (if nb (eng k) \<le> 0 then eos_at eng k else eos_at (decode_ok_at eng k) (Suc k))
           stops n_predict =
           generation_phase max_size eng stops n_predict"
  using assms(5) gen_loop_failure[OF assms(1-4)] failure_as_clean_stop[OF assms(1-4)]
  by (simp add: generation_phase_def)

theorem decode_failure_outcome_witness:
  "generation_phase example_max_size engine_piece_fails main_stops 64 = Exit 0 ''a b'' \<and>
   generation_phase example_max_size (eos_at engine_piece_fails 1) main_stops 64 =
     generation_phase example_max_size engine_piece_fails main_stops 64 \<and>
   generation_phase example_max_size engine_decode_fails main_stops 64 = Exit 0 ''a b'' \<and>
   generation_phase example_max_size
     (eos_at (decode_ok_at engine_decode_fails 0) 1) main_stops 64 =
     generation_phase example_max_size engine_decode_fails main_stops 64"
proof -
  have fr: "fragments engine_piece_fails (Suc 0) = first_fragment"
    "fragments engine_decode_fails (Suc 0) = first_fragment"
    by (simp_all add: engine_piece_fails_def engine_decode_fails_def piece_def first_fragment_def)
  have s1: "streaming engine_piece_fails main_stops (Suc 0)"
    unfolding streaming_Suc using first_fragment_no_stop
    by (simp add: fr del: fragments.simps) (simp add: streaming_def engine_piece_fails_def)
  have s0: "streaming engine_decode_fails main_stops 0" by (simp add: streaming_def)
  have a: "\<not> is_eos (engine_piece_fails (Suc 0))" "nb (engine_piece_fails (Suc 0)) \<le> 0"
    by (simp_all add: engine_piece_fails_def)
  have b: "\<not> is_eos (engine_decode_fails 0)" "\<not> nb (engine_decode_fails 0) \<le> 0"
    "\<not> ends_with_any (fragments engine_decode_fails (Suc 0)) main_stops"
    "decode_rc (engine_decode_fails 0) \<noteq> 0"
    using first_fragment_no_stop by (simp_all add: fr del: fragments.simps)
      (simp_all add: engine_decode_fails_def)
  from decode_failure_outcome[OF s1 _ a(1) _ reserve_64] a(2)
  have p: "generation_phase example_max_size engine_piece_fails main_stops 64 =
             Exit 0 (postprocess main_stops (fragments engine_piece_fails (Suc 0)))"
    "generation_phase example_max_size (eos_at engine_piece_fails (Suc 0)) main_stops 64 =
       generation_phase example_max_size engine_piece_fails main_stops 64"
    by simp_all
  from decode_failure_outcome[OF s0 _ b(1) _ reserve_64] b(2,3,4)
  have d: "generation_phase example_max_size engine_decode_fails main_stops 64 =
             Exit 0 (postprocess main_stops (fragments engine_decode_fails (Suc 0)))"
    "generation_phase example_max_size
       (eos_at (decode_ok_at engine_decode_fails 0) (Suc 0)) main_stops 64 =
       generation_phase example_max_size engine_decode_fails main_stops 64"
    by (simp_all del: fragments.simps)
  from p d show ?thesis
    by (simp add: fr postprocess_first_fragment del: fragments.simps)
qed

theorem decode_failure_counterexample:
  "gen_loop engine_decode_fails main_stops 64 0 [] = first_fragment \<and>
   gen_loop engine_piece_fails main_stops 64 0 [] = first_fragment \<and>
   generation_phase example_max_size engine_decode_fails main_stops 64 = Exit 0 ''a b'' \<and>
   generation_phase example_max_size engine_piece_fails main_stops 64 = Exit 0 ''a b'' \<and>
   generation_phase example_max_size engine_clean_stop main_stops 64 = Exit 0 ''a b''"
proof -
  have g: "gen_loop engine_decode_fails main_stops 64 0 [] = first_fragment"
    "gen_loop engine_piece_fails main_stops 64 0 [] = first_fragment"
    "gen_loop engine_clean_stop main_stops 64 0 [] = first_fragment"
    by (simp_all add: gen_loop.simps engine_decode_fails_def engine_piece_fails_def
          engine_clean_stop_def piece_def main_stops_def example_defs)
  with reserve_64 postprocess_first_fragment show ?thesis
    by (simp add: generation_phase_def)
qed

text \<open>
  C8 (as the code has it): with \<open>n_predict \<le> 0\<close> no iteration of the loop runs and the
  buffer stays empty; nothing checks the value beforehand, and where \<open>reserve\<close> accepts the
  request, as it does for 0, post-processing runs on the empty buffer and \<open>main\<close> returns 0
  with the empty result.
\<close>

theorem zero_budget_outcome:
  "n_predict \<le> 0 \<Longrightarrow>
   gen_loop eng stops n_predict 0 [] = [] \<and>
   (unat (reserve_request n_predict) \<le> max_size \<longrightarrow>
      generation_phase max_size eng stops n_predict = Exit 0 [])"
  by (simp add: gen_loop_budget generation_phase_def postprocess_Nil)

theorem zero_budget_outcome_witness:
  "gen_loop engine_clean_stop main_stops 0 0 [] = [] \<and>
   generation_phase example_max_size engine_clean_stop main_stops 0 = Exit 0 [] \<and>
   gen_loop engine_clean_stop main_stops (- 1) 0 [] = []"
  using zero_budget_outcome[of 0 engine_clean_stop main_stops example_max_size]
    zero_budget_outcome[of "- 1" engine_clean_stop main_stops example_max_size] reserve_0
  by simp

theorem zero_budget_counterexample:
  "generation_phase example_max_size engine_decode_fails main_stops 0 = Exit 0 [] \<and>
   generation_phase example_max_size (eos_at engine_decode_fails 0) main_stops 64 = Exit 0 []"
proof -
  have "gen_loop engine_decode_fails main_stops 0 0 [] = []"
    by (simp add: gen_loop.simps)
  moreover have "gen_loop (eos_at engine_decode_fails 0) main_stops 64 0 [] = []"
    by (simp add: gen_loop.simps eos_at_def)
  ultimately show ?thesis using reserve_0[of example_max_size] reserve_64
    by (simp add: generation_phase_def postprocess_Nil)
qed

lemma trim_take: "\<exists>k \<le> length s. trim_at_stop_first_occurrence s stops = take k s"
proof (cases "stop_cut s stops None")
  case None
  then have "trim_at_stop_first_occurrence s stops = take (length s) s"
    by (simp add: trim_at_stop_first_occurrence_def)
  then show ?thesis by blast
next
  case (Some k)
  with stop_cut_bound[OF Some] show ?thesis
    by (auto simp: trim_at_stop_first_occurrence_def resize_take)
qed

lemma anchor_example_length: "length anchor_example_input = 53"
  by (simp add: example_defs)

text \<open>Wherever the example text is cut, the rest of the pipeline stays within the filler sentence.\<close>

lemma anchor_example_cuts:
  "\<forall>k \<in> set [0..<54].
     prefix (anchor_repair (normalize_one_sentence (take k anchor_example_input)))
       (zh_filler @ zh_period)"
  by code_simp

lemma anchor_example_any_stops:
  "prefix (postprocess stops anchor_example_input) (zh_filler @ zh_period)"
proof -
  from trim_take[of anchor_example_input stops] obtain k where
    k: "k \<le> length anchor_example_input"
       "trim_at_stop_first_occurrence anchor_example_input stops = take k anchor_example_input"
    by blast
  from k(1) have "k \<in> set [0..<54]" by (simp add: anchor_example_length)
  with anchor_example_cuts k(2) show ?thesis by (simp add: postprocess_def)
qed

text \<open>
  C2 (as the code has it): for the example text the trimmer cuts at the first full stop,
  which is a stop literal of the program, so the result is the filler without its full
  stop; with no stop literals the normalizer cuts after the first full stop and the
  result is the filler sentence. The key is searched after these cuts, so the repair
  does not run: whatever the stop literals are, the result is a prefix of the filler
  sentence. When the filler and the key are in one sentence and there are no stop
  literals, the repair gives the text from the key on.
\<close>

theorem anchor_example_result:
  "prefix (postprocess stops anchor_example_input) (zh_filler @ zh_period) \<and>
   postprocess main_stops anchor_example_input = zh_filler \<and>
   postprocess [] anchor_example_input = zh_filler @ zh_period \<and>
   postprocess [] anchor_same_sentence_input = anchor_example_claimed"
proof (intro conjI)
  show "prefix (postprocess stops anchor_example_input) (zh_filler @ zh_period)"
    by (rule anchor_example_any_stops)
  show "postprocess main_stops anchor_example_input = zh_filler"
    by (simp add: example_defs postprocess_defs)
  show "postprocess [] anchor_example_input = zh_filler @ zh_period"
    by (simp add: example_defs postprocess_defs)
  show "postprocess [] anchor_same_sentence_input = anchor_example_claimed"
    by (simp add: example_defs postprocess_defs)
qed

theorem anchor_example_counterexample:
  "postprocess main_stops anchor_example_input \<noteq> anchor_example_claimed"
  by (simp add: example_defs postprocess_defs)

text \<open>
  C9 (as the code has it): the trimmed text is a prefix of the buffer. The final text is
  a subsequence of the buffer in which tab and newline are read as space: bytes are
  removed, and nothing is added. It is a prefix of the buffer when the buffer has no
  carriage return, no tab, no space at its front, no two consecutive spaces, and the key
  at no offset other than 0.
\<close>

theorem postprocess_removes_only:
  "prefix (trim_at_stop_first_occurrence b stops) b \<and>
   subseq (postprocess stops b) (map ws_to_space b) \<and>
   (chr_cr \<notin> set b \<and> chr_tab \<notin> set b \<and> \<not> prefix [chr_sp] b \<and>
    \<not> sublist [chr_sp, chr_sp] b \<and> (\<forall>p. 0 < p \<longrightarrow> \<not> occurs_at anchor_key b p)
    \<longrightarrow> prefix (postprocess stops b) b)"
  by (intro conjI impI trim_prefix postprocess_subseq postprocess_prefix) simp_all

theorem postprocess_removes_only_witness:
  "postprocess main_stops (''LR(0) ab'' @ [chr_nl] @ ''cd'') = ''LR(0) ab'' \<and>
   prefix (postprocess main_stops (''LR(0) ab'' @ [chr_nl] @ ''cd''))
     (''LR(0) ab'' @ [chr_nl] @ ''cd'')"
proof -
  let ?b = "''LR(0) ab'' @ [chr_nl] @ ''cd''"
  have h1: "chr_cr \<notin> set ?b" "chr_tab \<notin> set ?b" "\<not> prefix [chr_sp] ?b"
    by (simp_all add: example_defs)
  have h2: "\<not> sublist [chr_sp, chr_sp] ?b"
    by (simp add: example_defs sublist_Cons_right)
  have "find_str (tl ?b) anchor_key = None" by (simp add: anchor_key_def example_defs)
  then have h3: "\<forall>p. 0 < p \<longrightarrow> \<not> occurs_at anchor_key ?b p"
    using no_later_occurrence by blast
  from postprocess_removes_only[of ?b main_stops] h1 h2 h3
  have "prefix (postprocess main_stops ?b) ?b" by blast
  moreover have "postprocess main_stops ?b = ''LR(0) ab''"
    by (simp add: example_defs postprocess_defs)
  ultimately show ?thesis by (intro conjI)
qed

theorem leading_space_counterexample:
  "postprocess main_stops [chr_sp, CHR ''a''] = ''a'' \<and>
   \<not> prefix (postprocess main_stops [chr_sp, CHR ''a'']) [chr_sp, CHR ''a'']"
  by (simp add: example_defs postprocess_defs)

end
